theory Spec2Isabelle
  imports Main "HOL-Library.Sublist"
begin

section \<open>Failure Gate: \<open>circuitBreaker.service\<close>\<close>

text \<open>
  The module keeps one variable, \<open>let failureCount = 0\<close>, and five functions over it.
  The module state is a record with that one field; every function takes the state and
  returns the state it leaves behind, together with its return value when it has one.
  JavaScript numbers are exact on the integers of magnitude up to \<open>2^53\<close>, which no
  counter of failed calls reaches; the counter is an \<open>int\<close>.
\<close>

record gate =
  failureCount :: int

definition FAILURE_THRESHOLD :: int where
  "FAILURE_THRESHOLD = 3"

text \<open>The state of a freshly loaded module: \<open>let failureCount = 0\<close>.\<close>

definition fresh_gate :: gate where
  "fresh_gate = \<lparr>failureCount = 0\<rparr>"

text \<open>\<open>function isOpen() { return failureCount >= FAILURE_THRESHOLD; }\<close>\<close>

definition isOpen :: "gate \<Rightarrow> bool \<times> gate" where
  "isOpen g = (failureCount g \<ge> FAILURE_THRESHOLD, g)"

text \<open>\<open>function recordFailure() { failureCount += 1; }\<close>\<close>

definition recordFailure :: "gate \<Rightarrow> gate" where
  "recordFailure g = g\<lparr>failureCount := failureCount g + 1\<rparr>"

text \<open>\<open>function recordSuccess() { failureCount = 0; }\<close>\<close>

definition recordSuccess :: "gate \<Rightarrow> gate" where
  "recordSuccess g = g\<lparr>failureCount := 0\<rparr>"

text \<open>\<open>function reset() { failureCount = 0; }\<close>\<close>

definition reset :: "gate \<Rightarrow> gate" where
  "reset g = g\<lparr>failureCount := 0\<rparr>"

text \<open>\<open>function getFailureCount() { return failureCount; }\<close>\<close>

definition getFailureCount :: "gate \<Rightarrow> int \<times> gate" where
  "getFailureCount g = (failureCount g, g)"

text \<open>
  The five exported functions as one alphabet of calls, and the state a sequence of
  calls leaves behind when it starts from a given state.
\<close>

datatype gate_call = IsOpen | RecordFailure | RecordSuccess | Reset | GetFailureCount

fun gate_step :: "gate \<Rightarrow> gate_call \<Rightarrow> gate" where
  "gate_step g IsOpen = snd (isOpen g)"
| "gate_step g RecordFailure = recordFailure g"
| "gate_step g RecordSuccess = recordSuccess g"
| "gate_step g Reset = reset g"
| "gate_step g GetFailureCount = snd (getFailureCount g)"

definition gate_run :: "gate \<Rightarrow> gate_call list \<Rightarrow> gate" where
  "gate_run g cs = foldl gate_step g cs"

section \<open>Redactor: \<open>sanitizer.service\<close>\<close>

text \<open>
  \<open>src/services/sanitizer.service.js\<close> is required by the route and by its test file, but
  the file itself is not among the sources: only \<open>sanitizer.service.test.js\<close> is. Every
  definition of this section is therefore written from the specification (section 4.1), as
  a character scanner of the kind its design notes ask for, and says so. A message is a
  \<open>string\<close>; the three detectors look at ASCII characters only, so any other character is
  just a character that matches nothing.
\<close>

text \<open>Modelled from the spec: the character class of a decimal digit; the sanitizer's own
  patterns are missing.\<close>

definition is_digit :: "char \<Rightarrow> bool" where
  "is_digit c = (c \<in> set ''0123456789'')"

text \<open>Modelled from the spec: the class of a letter ("a top-level label of at least two
  letters"); the sanitizer's own patterns are missing.\<close>

definition is_letter :: "char \<Rightarrow> bool" where
  "is_letter c = (c \<in> set ''abcdefghijklmnopqrstuvwxyzABCDEFGHIJKLMNOPQRSTUVWXYZ'')"

text \<open>Modelled from the spec: "Local-chars include letters, digits, and \<open>. _ % + -\<close>"; the
  sanitizer's email pattern is missing.\<close>

definition is_local :: "char \<Rightarrow> bool" where
  "is_local c = (is_letter c \<or> is_digit c \<or> c \<in> set ''._%+-'')"

text \<open>Modelled from the spec: the "domain-chars", which the specification does not list;
  they are taken to be letters, digits, the dot and the hyphen. The sanitizer's email
  pattern is missing.\<close>

definition is_domain :: "char \<Rightarrow> bool" where
  "is_domain c = (is_letter c \<or> is_digit c \<or> c \<in> set ''.-'')"

subsection \<open>Luhn checksum\<close>

text \<open>Modelled from the spec: the value of a decimal digit character ("treat the candidate
  as a sequence of decimal digits"); \<open>isValidLuhn\<close> is missing from the sources.\<close>

definition digit_val :: "char \<Rightarrow> nat" where
  "digit_val c = of_char c - 48"

text \<open>Modelled from the spec: "double ...; if doubling produces a value greater than 9,
  subtract 9 from it"; \<open>isValidLuhn\<close> is missing from the sources.\<close>

definition luhn_double :: "nat \<Rightarrow> nat" where
  "luhn_double d = (if 2 * d > 9 then 2 * d - 9 else 2 * d)"

text \<open>Modelled from the spec: the loop of the missing \<open>isValidLuhn\<close>, over the digits from
  the rightmost one leftwards, with a flag that says whether the digit at hand is a
  "second" one and is flipped at every digit.\<close>

fun luhn_sum :: "bool \<Rightarrow> string \<Rightarrow> nat" where
  "luhn_sum dbl [] = 0"
| "luhn_sum dbl (c # cs) =
     (if dbl then luhn_double (digit_val c) else digit_val c) + luhn_sum (\<not> dbl) cs"

text \<open>Modelled from the spec: \<open>isValidLuhn(digits)\<close>, missing from the sources: "The
  candidate is valid iff the total sum is divisible by 10".\<close>

definition isValidLuhn :: "string \<Rightarrow> bool" where
  "isValidLuhn digits = (luhn_sum False (rev digits) mod 10 = 0)"

text \<open>Modelled from the spec: the checksum in the specification's own words, by position:
  the digit at position \<open>p\<close> counted from the right, starting at 1, is doubled (and
  adjusted) when \<open>p\<close> is one of 2, 4, 6, ...; all are summed. It is what the missing
  \<open>isValidLuhn\<close> is compared with.\<close>

definition luhn_spec_sum :: "string \<Rightarrow> nat" where
  "luhn_spec_sum digits =
     (\<Sum>i<length digits.
        if even (i + 1) then luhn_double (digit_val (rev digits ! i))
        else digit_val (rev digits ! i))"

subsection \<open>The three passes\<close>

text \<open>Modelled from the spec: the placeholder \<open><REDACTED: EMAIL>\<close> of the missing
  sanitizer.\<close>

definition EMAIL_PLACEHOLDER :: string where
  "EMAIL_PLACEHOLDER = ''<REDACTED: EMAIL>''"

text \<open>Modelled from the spec: the placeholder \<open><REDACTED: CREDIT_CARD>\<close> of the missing
  sanitizer.\<close>

definition CREDIT_CARD_PLACEHOLDER :: string where
  "CREDIT_CARD_PLACEHOLDER = ''<REDACTED: CREDIT_CARD>''"

text \<open>Modelled from the spec: the placeholder \<open><REDACTED: SSN>\<close> of the missing
  sanitizer.\<close>

definition SSN_PLACEHOLDER :: string where
  "SSN_PLACEHOLDER = ''<REDACTED: SSN>''"

text \<open>Modelled from the spec: the end of the email rule of the missing sanitizer, "a
  top-level label of at least two letters" after a dot, matched at the head of the text:
  the number of characters taken, the dot included, with as many letters as there are.\<close>

fun tld_at :: "string \<Rightarrow> nat option" where
  "tld_at [] = None"
| "tld_at (c # cs) =
     (if c = CHR ''.'' \<and> 2 \<le> length (takeWhile is_letter cs)
      then Some (Suc (length (takeWhile is_letter cs))) else None)"

text \<open>Modelled from the spec: the part of the email rule after the \<open>@\<close> in the missing
  sanitizer, "domain-chars with at least one dot, then a top-level label", matched at the
  head of the text: one or more domain characters, as many as still leave a dot and a label
  to follow, then that dot and label. The result is the number of characters taken.\<close>

fun domain_end :: "string \<Rightarrow> nat option" where
  "domain_end [] = None"
| "domain_end (c # cs) =
     (if is_domain c then
        (case domain_end cs of
           Some n \<Rightarrow> Some (Suc n)
         | None \<Rightarrow> (case tld_at cs of Some n \<Rightarrow> Some (Suc n) | None \<Rightarrow> None))
      else None)"

text \<open>Modelled from the spec: the email rule of the missing sanitizer matched at the head
  of the text, "one-or-more of local-chars then \<open>@\<close> then domain-chars with at least one dot
  then a top-level label of at least two letters": the length of the match, if there is
  one.\<close>

definition match_email :: "string \<Rightarrow> nat option" where
  "match_email s =
     (let local_part = takeWhile is_local s in
      if local_part = [] then None
      else (case dropWhile is_local s of
              [] \<Rightarrow> None
            | c # rest \<Rightarrow>
                if c = CHR ''@'' then
                  (case domain_end rest of
                     Some n \<Rightarrow> Some (length local_part + 1 + n)
                   | None \<Rightarrow> None)
                else None))"

text \<open>Modelled from the spec: pass (1) of the missing \<open>sanitize\<close>, "Every non-overlapping
  match in the string is replaced": scan from the left; where the email rule matches, emit
  the placeholder and go on after the match; elsewhere emit the character.\<close>

function email_pass :: "string \<Rightarrow> string" where
  "email_pass [] = []"
| "email_pass (c # cs) =
     (case match_email (c # cs) of
        Some n \<Rightarrow> EMAIL_PLACEHOLDER @ email_pass (drop n (c # cs))
      | None \<Rightarrow> c # email_pass cs)"
  by pat_completeness auto
termination
  by (relation "measure length")
     (auto simp: match_email_def Let_def split: if_splits list.splits option.splits)

text \<open>Modelled from the spec: the scan shared by passes (2) and (3) of the missing
  \<open>sanitize\<close>. Both look at "a contiguous run of digits, bounded by non-digit or string
  edges (not a substring of a longer digit run)": the scan cuts the text into its maximal
  digit runs, hands each to \<open>f\<close>, and copies every other character.\<close>

function digit_pass :: "(string \<Rightarrow> string) \<Rightarrow> string \<Rightarrow> string" where
  "digit_pass f [] = []"
| "digit_pass f (c # cs) =
     (if is_digit c
      then f (c # takeWhile is_digit cs) @ digit_pass f (dropWhile is_digit cs)
      else c # digit_pass f cs)"
  by pat_completeness auto
termination
  by (relation "measure (\<lambda>(f, s). length s)")
     (auto simp: length_dropWhile_le less_Suc_eq_le)

text \<open>Modelled from the spec: what pass (2) of the missing \<open>sanitize\<close> does with a digit
  run: "a contiguous run of 13 to 19 digits ... is redacted only if it passes the Luhn
  checksum; otherwise it is left untouched verbatim".\<close>

definition redact_card :: "string \<Rightarrow> string" where
  "redact_card run =
     (if 13 \<le> length run \<and> length run \<le> 19 \<and> isValidLuhn run
      then CREDIT_CARD_PLACEHOLDER else run)"

text \<open>Modelled from the spec: what pass (3) of the missing \<open>sanitize\<close> does with a digit
  run: "a contiguous run of exactly 9 digits ... No checksum; every boundary-delimited
  9-digit run is redacted unconditionally".\<close>

definition redact_ssn :: "string \<Rightarrow> string" where
  "redact_ssn run = (if length run = 9 then SSN_PLACEHOLDER else run)"

text \<open>Modelled from the spec: pass (2) of the missing \<open>sanitize\<close>.\<close>

definition card_pass :: "string \<Rightarrow> string" where
  "card_pass s = digit_pass redact_card s"

text \<open>Modelled from the spec: pass (3) of the missing \<open>sanitize\<close>.\<close>

definition ssn_pass :: "string \<Rightarrow> string" where
  "ssn_pass s = digit_pass redact_ssn s"

text \<open>Modelled from the spec: the values \<open>sanitize\<close> can be called with ("Input: any
  value"), as far as the missing function tells them apart: a string, or one of the other
  kinds of JavaScript value. The payload of a number plays no part and is an \<open>int\<close>.\<close>

datatype js_value =
  JUndefined
  | JNull
  | JBoolean bool
  | JNumber int
  | JString string
  | JArray "js_value list"
  | JObject "(string \<times> js_value) list"

text \<open>Modelled from the spec: \<open>sanitize(message)\<close>, missing from the sources: "If the input
  is not a string, or is the empty string, the result is the empty string. Otherwise
  returns a string with all matches redacted in a fixed pass order: (1) email addresses,
  (2) credit-card-shaped numbers that pass a checksum, (3) nine-digit numbers. Each pass
  operates only on the output of the previous pass." The function returns a string on
  every input: it has no throwing branch.\<close>

fun sanitize :: "js_value \<Rightarrow> string" where
  "sanitize (JString s) = (if s = [] then [] else ssn_pass (card_pass (email_pass s)))"
| "sanitize _ = []"

subsection \<open>The detector patterns, as the specification words them\<close>

text \<open>Modelled from the spec: a text that is an email by the specification's rule, "one or
  more local-chars, then \<open>@\<close>, then domain-chars with at least one dot, then a top-level
  label of at least two letters". It is what the missing sanitizer's matcher is compared
  with.\<close>

definition email_word :: "string \<Rightarrow> bool" where
  "email_word w =
     (\<exists>local_part domain_part tld.
        w = local_part @ ''@'' @ domain_part @ ''.'' @ tld
        \<and> local_part \<noteq> [] \<and> (\<forall>c\<in>set local_part. is_local c)
        \<and> domain_part \<noteq> [] \<and> (\<forall>c\<in>set domain_part. is_domain c)
        \<and> 2 \<le> length tld \<and> (\<forall>c\<in>set tld. is_letter c))"

text \<open>Modelled from the spec: "a character sequence matching the email pattern" occurs in
  the text; the missing sanitizer's matcher is compared with it.\<close>

definition contains_email :: "string \<Rightarrow> bool" where
  "contains_email s = (\<exists>w. sublist w s \<and> email_word w)"






subsection \<open>Notions used in the proofs\<close>

text \<open>One of the three placeholder tokens.\<close>

definition is_placeholder :: "string \<Rightarrow> bool" where
  "is_placeholder p =
     (p = EMAIL_PLACEHOLDER \<or> p = CREDIT_CARD_PLACEHOLDER \<or> p = SSN_PLACEHOLDER)"

text \<open>A function on digit runs that returns its argument or a placeholder, as the two
  digit passes' functions do.\<close>

definition redactor :: "(string \<Rightarrow> string) \<Rightarrow> bool" where
  "redactor f = (\<forall>run. f run = run \<or> is_placeholder (f run))"


section \<open>Orchestrating flow: \<open>secureInquiry.usecase\<close>\<close>

text \<open>
  \<open>createSecureInquiryUseCase(dependencies)\<close> closes over five collaborators. The route
  wires in the \<open>circuitBreaker.service\<close> module above, whose state is the gate; the other
  four (\<open>sanitizer.sanitize\<close>, \<open>aiPort.generateAnswer\<close>, \<open>cryptoUtil.encrypt\<close>,
  \<open>auditDbPort.saveAudit\<close>) are taken as they are injected: each either returns a value or
  throws (rejects) with an error of an arbitrary type \<open>'e\<close>.
\<close>

record audit_entry =
  userId :: string
  timestamp :: string
  originalMessageEncrypted :: string
  sanitizedMessage :: string

record 'e dependencies =
  sanitize_dep :: "string \<Rightarrow> 'e + string"
  generateAnswer :: "string \<Rightarrow> 'e + string"
  encrypt :: "string \<Rightarrow> 'e + string"
  saveAudit :: "audit_entry \<Rightarrow> 'e + unit"

text \<open>
  What \<open>executeSecureInquiry\<close> can throw: the \<open>CircuitOpenError\<close> it constructs itself
  (with the three fields the constructor sets), or the very error a collaborator threw.
\<close>

datatype 'e thrown =
  CircuitOpenError (message: string) (name: string) (isCircuitOpen: bool)
  | Propagated 'e

text \<open>
  \<open>constructor() { super('Service Busy'); this.name = 'CircuitOpenError';
  this.isCircuitOpen = true; }\<close>
\<close>

definition new_CircuitOpenError :: "'e thrown" where
  "new_CircuitOpenError = CircuitOpenError ''Service Busy'' ''CircuitOpenError'' True"

text \<open>The calls the flow makes on its collaborators, recorded in the order made.\<close>

datatype call =
  IsOpenCalled
  | SanitizeCalled string
  | GenerateAnswerCalled string
  | RecordSuccessCalled
  | RecordFailureCalled
  | EncryptCalled string
  | SaveAuditCalled audit_entry

record request =
  req_userId :: string
  req_message :: string

text \<open>
  One run of the flow: what it returns (\<open>Inr\<close> the answer) or throws (\<open>Inl\<close>), the gate
  state it leaves, and the calls it made.
\<close>

record 'e outcome =
  result :: "'e thrown + string"
  gate_after :: gate
  calls :: "call list"

text \<open>
  \<open>executeSecureInquiry({ userId, message })\<close>, step by step as in the source. \<open>now\<close> is
  what \<open>new Date().toISOString()\<close> reads.
\<close>

definition executeSecureInquiry ::
  "'e dependencies \<Rightarrow> string \<Rightarrow> request \<Rightarrow> gate \<Rightarrow> 'e outcome" where
  "executeSecureInquiry deps now req g =
    (let (is_open, g1) = isOpen g in
     if is_open then
       \<lparr>result = Inl new_CircuitOpenError, gate_after = g1, calls = [IsOpenCalled]\<rparr>
     else
       (case sanitize_dep deps (req_message req) of
         Inl e \<Rightarrow>
           \<lparr>result = Inl (Propagated e), gate_after = g1,
            calls = [IsOpenCalled, SanitizeCalled (req_message req)]\<rparr>
       | Inr sanitized \<Rightarrow>
           (case generateAnswer deps sanitized of
             Inl error \<Rightarrow>
               \<lparr>result = Inl (Propagated error), gate_after = recordFailure g1,
                calls = [IsOpenCalled, SanitizeCalled (req_message req),
                         GenerateAnswerCalled sanitized, RecordFailureCalled]\<rparr>
           | Inr answer \<Rightarrow>
               (let g2 = recordSuccess g1 in
                case encrypt deps (req_message req) of
                  Inl e \<Rightarrow>
                    \<lparr>result = Inl (Propagated e), gate_after = g2,
                     calls = [IsOpenCalled, SanitizeCalled (req_message req),
                              GenerateAnswerCalled sanitized, RecordSuccessCalled,
                              EncryptCalled (req_message req)]\<rparr>
                | Inr encrypted \<Rightarrow>
                    (let auditEntry = \<lparr>userId = req_userId req, timestamp = now,
                           originalMessageEncrypted = encrypted,
                           sanitizedMessage = sanitized\<rparr> in
                     case saveAudit deps auditEntry of
                       Inl e \<Rightarrow>
                         \<lparr>result = Inl (Propagated e), gate_after = g2,
                          calls = [IsOpenCalled, SanitizeCalled (req_message req),
                                   GenerateAnswerCalled sanitized, RecordSuccessCalled,
                                   EncryptCalled (req_message req),
                                   SaveAuditCalled auditEntry]\<rparr>
                     | Inr _ \<Rightarrow>
                         \<lparr>result = Inr answer, gate_after = g2,
                          calls = [IsOpenCalled, SanitizeCalled (req_message req),
                                   GenerateAnswerCalled sanitized, RecordSuccessCalled,
                                   EncryptCalled (req_message req),
                                   SaveAuditCalled auditEntry]\<rparr>)))))"

text \<open>Which recorded calls reach the generation service, the sanitizer, the audit store.\<close>

fun is_generate_call :: "call \<Rightarrow> bool" where
  "is_generate_call (GenerateAnswerCalled _) = True"
| "is_generate_call _ = False"

fun is_sanitize_call :: "call \<Rightarrow> bool" where
  "is_sanitize_call (SanitizeCalled _) = True"
| "is_sanitize_call _ = False"

fun is_audit_call :: "call \<Rightarrow> bool" where
  "is_audit_call (SaveAuditCalled _) = True"
| "is_audit_call _ = False"

section \<open>Properties of the Failure Gate\<close>

lemma failureCount_recordFailure_funpow:
  "failureCount ((recordFailure ^^ n) g) = failureCount g + int n"
  by (induction n) (simp_all add: recordFailure_def)

lemma gate_step_nonneg:
  "0 \<le> failureCount g \<Longrightarrow> 0 \<le> failureCount (gate_step g c)"
  by (cases c) (simp_all add: isOpen_def recordFailure_def recordSuccess_def reset_def
      getFailureCount_def)

lemma gate_run_nonneg_from:
  "0 \<le> failureCount g \<Longrightarrow> 0 \<le> failureCount (gate_run g cs)"
  unfolding gate_run_def
  by (induction cs arbitrary: g) (simp_all add: gate_step_nonneg)

text \<open>
  C1. \<open>isOpen\<close> answers whether the counter is at least 3 and leaves the state as it
  was; \<open>recordFailure\<close> adds exactly one, so \<open>n\<close> calls add \<open>n\<close>, also past 3, and the
  gate is open at every counter value from 3 on. The fresh gate is closed; after \<open>n\<close>
  failures in a row it is open exactly when \<open>n\<close> is at least 3; after \<open>recordSuccess\<close>
  or \<open>reset\<close> it is closed and \<open>getFailureCount\<close> returns 0; after a success and two
  failures it is still closed.
\<close>

theorem C1_failure_gate_state_machine:
  "fst (isOpen g) = (3 \<le> failureCount g)
   \<and> snd (isOpen g) = g
   \<and> failureCount (recordFailure g) = failureCount g + 1
   \<and> failureCount ((recordFailure ^^ n) g) = failureCount g + int n
   \<and> (3 \<le> failureCount g \<longrightarrow> fst (isOpen ((recordFailure ^^ n) g)))
   \<and> \<not> fst (isOpen fresh_gate)
   \<and> fst (isOpen ((recordFailure ^^ n) fresh_gate)) = (3 \<le> n)
   \<and> fst (isOpen (recordFailure (recordFailure (recordFailure fresh_gate))))
   \<and> \<not> fst (isOpen (recordSuccess g)) \<and> fst (getFailureCount (recordSuccess g)) = 0
   \<and> \<not> fst (isOpen (reset g)) \<and> fst (getFailureCount (reset g)) = 0
   \<and> \<not> fst (isOpen (recordFailure (recordFailure (recordSuccess g))))"
proof -
  have open_iff: "fst (isOpen h) = (3 \<le> failureCount h)" for h
    by (simp add: isOpen_def FAILURE_THRESHOLD_def)
  have fresh: "failureCount fresh_gate = 0"
    by (simp add: fresh_gate_def)
  have "fst (isOpen ((recordFailure ^^ n) fresh_gate)) = (3 \<le> n)"
    by (simp add: open_iff failureCount_recordFailure_funpow fresh)
  moreover have "3 \<le> failureCount g \<longrightarrow> fst (isOpen ((recordFailure ^^ n) g))"
    by (simp add: open_iff failureCount_recordFailure_funpow)
  moreover have "failureCount ((recordFailure ^^ n) g) = failureCount g + int n"
    by (rule failureCount_recordFailure_funpow)
  moreover have "snd (isOpen g) = g"
    by (simp add: isOpen_def)
  moreover have "fst (getFailureCount (recordSuccess g)) = 0"
    "fst (getFailureCount (reset g)) = 0"
    by (simp_all add: getFailureCount_def recordSuccess_def reset_def)
  ultimately show ?thesis
    by (simp add: open_iff recordFailure_def recordSuccess_def reset_def fresh)
qed

theorem C1_failure_gate_state_machine_witness:
  "(3::int) \<le> failureCount \<lparr>failureCount = 3\<rparr>
   \<and> fst (isOpen ((recordFailure ^^ 2) \<lparr>failureCount = 3\<rparr>))
   \<and> failureCount ((recordFailure ^^ 2) \<lparr>failureCount = 3\<rparr>) = 5
   \<and> \<not> fst (isOpen ((recordFailure ^^ 2) fresh_gate))
   \<and> fst (isOpen ((recordFailure ^^ 3) fresh_gate))"
  using C1_failure_gate_state_machine [of "\<lparr>failureCount = 3\<rparr>" 2]
    C1_failure_gate_state_machine [of "\<lparr>failureCount = 3\<rparr>" 3]
  by simp

text \<open>
  C6. Starting from the fresh gate, after any sequence of calls to the five functions the
  counter is a non-negative integer. From any such state, one more call changes the
  counter in one of three ways only: \<open>recordFailure\<close> adds one, \<open>recordSuccess\<close> and
  \<open>reset\<close> set it to 0, the two queries leave it alone. So the counter is lower after a
  call only when that call was \<open>recordSuccess\<close> or \<open>reset\<close>, and then it is 0: no call
  subtracts one (from a counter of 2 or more, no call leaves the counter one lower).
\<close>

theorem C6_failure_counter_invariant:
  "0 \<le> failureCount (gate_run fresh_gate cs)
   \<and> (0 \<le> failureCount g \<longrightarrow> 0 \<le> failureCount (gate_step g c))
   \<and> failureCount (gate_step g c) =
       (case c of RecordFailure \<Rightarrow> failureCount g + 1
        | RecordSuccess \<Rightarrow> 0
        | Reset \<Rightarrow> 0
        | IsOpen \<Rightarrow> failureCount g
        | GetFailureCount \<Rightarrow> failureCount g)
   \<and> (failureCount (gate_step g c) < failureCount g \<longrightarrow>
        (c = RecordSuccess \<or> c = Reset) \<and> failureCount (gate_step g c) = 0)
   \<and> (2 \<le> failureCount g \<longrightarrow> failureCount (gate_step g c) \<noteq> failureCount g - 1)"
proof -
  have "0 \<le> failureCount (gate_run fresh_gate cs)"
    by (rule gate_run_nonneg_from) (simp add: fresh_gate_def)
  moreover have "0 \<le> failureCount g \<longrightarrow> 0 \<le> failureCount (gate_step g c)"
    by (simp add: gate_step_nonneg)
  moreover have "failureCount (gate_step g c) =
       (case c of RecordFailure \<Rightarrow> failureCount g + 1
        | RecordSuccess \<Rightarrow> 0
        | Reset \<Rightarrow> 0
        | IsOpen \<Rightarrow> failureCount g
        | GetFailureCount \<Rightarrow> failureCount g)"
    by (cases c) (simp_all add: isOpen_def recordFailure_def recordSuccess_def reset_def
        getFailureCount_def)
  ultimately show ?thesis
    by (cases c) simp_all
qed

theorem C6_failure_counter_invariant_witness:
  "failureCount (gate_run fresh_gate
      [RecordFailure, IsOpen, RecordFailure, RecordFailure, GetFailureCount, RecordFailure]) = 4
   \<and> failureCount (gate_step \<lparr>failureCount = 4\<rparr> RecordFailure) = 5
   \<and> failureCount (gate_step \<lparr>failureCount = 4\<rparr> Reset) = 0
   \<and> failureCount (gate_step \<lparr>failureCount = 4\<rparr> Reset) < failureCount \<lparr>failureCount = 4\<rparr>
   \<and> (0::int) \<le> failureCount \<lparr>failureCount = 4\<rparr>
   \<and> (2::int) \<le> failureCount \<lparr>failureCount = 4\<rparr>"
  using C6_failure_counter_invariant [of "[RecordFailure, IsOpen, RecordFailure, RecordFailure,
        GetFailureCount, RecordFailure]" "\<lparr>failureCount = 4\<rparr>" Reset]
    C6_failure_counter_invariant [of "[]" "\<lparr>failureCount = 4\<rparr>" RecordFailure]
  by (simp add: gate_run_def fresh_gate_def isOpen_def recordFailure_def getFailureCount_def)

text \<open>
  C7. \<open>reset\<close> and \<open>recordSuccess\<close> are the same function of the gate state: whatever
  the counter was, 3 or more included, each sets it to 0 and leaves the gate closed.
\<close>

theorem C7_reset_equals_recordSuccess:
  "reset = recordSuccess
   \<and> reset g = recordSuccess g
   \<and> failureCount (reset g) = 0 \<and> failureCount (recordSuccess g) = 0
   \<and> \<not> fst (isOpen (reset g)) \<and> \<not> fst (isOpen (recordSuccess g))"
  by (simp add: fun_eq_iff reset_def recordSuccess_def isOpen_def FAILURE_THRESHOLD_def)

section \<open>Properties of the orchestrating flow\<close>

lemma executeSecureInquiry_open:
  "fst (isOpen g) \<Longrightarrow>
   executeSecureInquiry deps now req g =
     \<lparr>result = Inl new_CircuitOpenError, gate_after = g, calls = [IsOpenCalled]\<rparr>"
  by (simp add: executeSecureInquiry_def isOpen_def)

lemma executeSecureInquiry_generate_rejects:
  assumes "\<not> fst (isOpen g)"
    and "sanitize_dep deps (req_message req) = Inr sanitized"
    and "generateAnswer deps sanitized = Inl err"
  shows "executeSecureInquiry deps now req g =
     \<lparr>result = Inl (Propagated err), gate_after = recordFailure g,
      calls = [IsOpenCalled, SanitizeCalled (req_message req),
               GenerateAnswerCalled sanitized, RecordFailureCalled]\<rparr>"
  using assms by (simp add: executeSecureInquiry_def isOpen_def)

lemma executeSecureInquiry_encrypt_throws:
  assumes "\<not> fst (isOpen g)"
    and "sanitize_dep deps (req_message req) = Inr sanitized"
    and "generateAnswer deps sanitized = Inr answer"
    and "encrypt deps (req_message req) = Inl e"
  shows "executeSecureInquiry deps now req g =
     \<lparr>result = Inl (Propagated e), gate_after = recordSuccess g,
      calls = [IsOpenCalled, SanitizeCalled (req_message req),
               GenerateAnswerCalled sanitized, RecordSuccessCalled,
               EncryptCalled (req_message req)]\<rparr>"
  using assms by (simp add: executeSecureInquiry_def isOpen_def)

lemma executeSecureInquiry_audited:
  assumes "\<not> fst (isOpen g)"
    and "sanitize_dep deps (req_message req) = Inr sanitized"
    and "generateAnswer deps sanitized = Inr answer"
    and "encrypt deps (req_message req) = Inr encrypted"
  shows "executeSecureInquiry deps now req g =
     \<lparr>result =
        (case saveAudit deps \<lparr>userId = req_userId req, timestamp = now,
                 originalMessageEncrypted = encrypted, sanitizedMessage = sanitized\<rparr> of
           Inl e \<Rightarrow> Inl (Propagated e) | Inr _ \<Rightarrow> Inr answer),
      gate_after = recordSuccess g,
      calls = [IsOpenCalled, SanitizeCalled (req_message req),
               GenerateAnswerCalled sanitized, RecordSuccessCalled,
               EncryptCalled (req_message req),
               SaveAuditCalled \<lparr>userId = req_userId req, timestamp = now,
                 originalMessageEncrypted = encrypted, sanitizedMessage = sanitized\<rparr>]\<rparr>"
  using assms by (simp add: executeSecureInquiry_def isOpen_def split: sum.splits)

lemma executeSecureInquiry_audit_call_cases:
  assumes "list_ex is_audit_call (calls (executeSecureInquiry deps now req g))"
  shows "\<exists>sanitized answer encrypted.
     \<not> fst (isOpen g)
     \<and> sanitize_dep deps (req_message req) = Inr sanitized
     \<and> generateAnswer deps sanitized = Inr answer
     \<and> encrypt deps (req_message req) = Inr encrypted"
  using assms
  by (auto simp: executeSecureInquiry_def isOpen_def Let_def split: sum.splits if_splits)

text \<open>
  C8. When \<open>isOpen()\<close> returns true at the start of \<open>executeSecureInquiry\<close>, the flow
  throws the \<open>CircuitOpenError\<close> (message \<open>Service Busy\<close>), the only call it has made is
  that \<open>isOpen()\<close>: the generation service, the sanitizer and the audit store are not
  invoked (nor is the encryption), and the gate state is as it was.
\<close>

theorem C8_open_gate_fast_rejection:
  fixes deps :: "'e dependencies"
  assumes "fst (isOpen g)"
  shows "result (executeSecureInquiry deps now req g) = Inl new_CircuitOpenError
    \<and> message (new_CircuitOpenError :: 'e thrown) = ''Service Busy''
    \<and> calls (executeSecureInquiry deps now req g) = [IsOpenCalled]
    \<and> \<not> list_ex is_generate_call (calls (executeSecureInquiry deps now req g))
    \<and> \<not> list_ex is_sanitize_call (calls (executeSecureInquiry deps now req g))
    \<and> \<not> list_ex is_audit_call (calls (executeSecureInquiry deps now req g))
    \<and> gate_after (executeSecureInquiry deps now req g) = g"
  by (simp add: executeSecureInquiry_open [OF assms] new_CircuitOpenError_def)

theorem C8_open_gate_fast_rejection_witness:
  "fst (isOpen \<lparr>failureCount = 3\<rparr>)
   \<and> result (executeSecureInquiry
        \<lparr>sanitize_dep = (\<lambda>m. Inr m), generateAnswer = (\<lambda>m. Inr ''Generated Answer''),
         encrypt = (\<lambda>m. Inr m), saveAudit = (\<lambda>a. Inr ())\<rparr>
        ''2026-01-01T00:00:00.000Z'' \<lparr>req_userId = ''user1'', req_message = ''hello''\<rparr>
        \<lparr>failureCount = 3\<rparr>)
     = (Inl (CircuitOpenError ''Service Busy'' ''CircuitOpenError'' True) :: unit thrown + string)
   \<and> calls (executeSecureInquiry
        \<lparr>sanitize_dep = (\<lambda>m. Inr m), generateAnswer = (\<lambda>m. Inr ''Generated Answer''),
         encrypt = (\<lambda>m. Inr m), saveAudit = (\<lambda>a. (Inr () :: unit + unit))\<rparr>
        ''2026-01-01T00:00:00.000Z'' \<lparr>req_userId = ''user1'', req_message = ''hello''\<rparr>
        \<lparr>failureCount = 3\<rparr>)
     = [IsOpenCalled]"
  using C8_open_gate_fast_rejection [of "\<lparr>failureCount = 3\<rparr>"
      "\<lparr>sanitize_dep = (\<lambda>m. Inr m), generateAnswer = (\<lambda>m. Inr ''Generated Answer''),
         encrypt = (\<lambda>m. Inr m), saveAudit = (\<lambda>a. (Inr () :: unit + unit))\<rparr>"
      "''2026-01-01T00:00:00.000Z''" "\<lparr>req_userId = ''user1'', req_message = ''hello''\<rparr>"]
  by (simp add: isOpen_def FAILURE_THRESHOLD_def new_CircuitOpenError_def)

text \<open>
  C9. When the gate is closed, the sanitizer has returned and the generation-service
  call rejects with \<open>err\<close>, the flow calls \<open>recordFailure()\<close> exactly once (the counter
  goes up by one), throws that same \<open>err\<close>, and makes no call to the audit store. And in
  any run at all, a call to the audit store is made only after the generation service
  has answered: it is the last of the calls, after \<open>generateAnswer\<close> returned and
  \<open>recordSuccess()\<close> was called.
\<close>

theorem C9_generation_failure_path:
  "(\<not> fst (isOpen g) \<and> sanitize_dep deps (req_message req) = Inr sanitized
      \<and> generateAnswer deps sanitized = Inl err \<longrightarrow>
      result (executeSecureInquiry deps now req g) = Inl (Propagated err)
      \<and> calls (executeSecureInquiry deps now req g) =
          [IsOpenCalled, SanitizeCalled (req_message req),
           GenerateAnswerCalled sanitized, RecordFailureCalled]
      \<and> count_list (calls (executeSecureInquiry deps now req g)) RecordFailureCalled = 1
      \<and> gate_after (executeSecureInquiry deps now req g) = recordFailure g
      \<and> failureCount (gate_after (executeSecureInquiry deps now req g)) = failureCount g + 1
      \<and> \<not> list_ex is_audit_call (calls (executeSecureInquiry deps now req g)))
   \<and> (list_ex is_audit_call (calls (executeSecureInquiry deps now req g)) \<longrightarrow>
      (\<exists>sanitized' answer entry.
         generateAnswer deps sanitized' = Inr answer
         \<and> calls (executeSecureInquiry deps now req g) =
             [IsOpenCalled, SanitizeCalled (req_message req),
              GenerateAnswerCalled sanitized', RecordSuccessCalled,
              EncryptCalled (req_message req), SaveAuditCalled entry]))"
proof (intro conjI impI)
  assume h: "\<not> fst (isOpen g) \<and> sanitize_dep deps (req_message req) = Inr sanitized
      \<and> generateAnswer deps sanitized = Inl err"
  then have run: "executeSecureInquiry deps now req g =
     \<lparr>result = Inl (Propagated err), gate_after = recordFailure g,
      calls = [IsOpenCalled, SanitizeCalled (req_message req),
               GenerateAnswerCalled sanitized, RecordFailureCalled]\<rparr>"
    by (simp add: executeSecureInquiry_generate_rejects)
  show "result (executeSecureInquiry deps now req g) = Inl (Propagated err)"
    by (simp add: run)
  show "calls (executeSecureInquiry deps now req g) =
          [IsOpenCalled, SanitizeCalled (req_message req),
           GenerateAnswerCalled sanitized, RecordFailureCalled]"
    by (simp add: run)
  show "count_list (calls (executeSecureInquiry deps now req g)) RecordFailureCalled = 1"
    by (simp add: run)
  show "gate_after (executeSecureInquiry deps now req g) = recordFailure g"
    by (simp add: run)
  show "failureCount (gate_after (executeSecureInquiry deps now req g)) = failureCount g + 1"
    by (simp add: run recordFailure_def)
  show "\<not> list_ex is_audit_call (calls (executeSecureInquiry deps now req g))"
    by (simp add: run)
next
  assume "list_ex is_audit_call (calls (executeSecureInquiry deps now req g))"
  from executeSecureInquiry_audit_call_cases [OF this]
  obtain sanitized' answer encrypted where
    c: "\<not> fst (isOpen g)" "sanitize_dep deps (req_message req) = Inr sanitized'"
      "generateAnswer deps sanitized' = Inr answer"
      "encrypt deps (req_message req) = Inr encrypted"
    by blast
  show "\<exists>sanitized' answer entry.
         generateAnswer deps sanitized' = Inr answer
         \<and> calls (executeSecureInquiry deps now req g) =
             [IsOpenCalled, SanitizeCalled (req_message req),
              GenerateAnswerCalled sanitized', RecordSuccessCalled,
              EncryptCalled (req_message req), SaveAuditCalled entry]"
    using c(3) by (auto simp: executeSecureInquiry_audited [OF c])
qed

theorem C9_generation_failure_path_witness:
  "\<not> fst (isOpen \<lparr>failureCount = 2\<rparr>)
   \<and> result (executeSecureInquiry
        \<lparr>sanitize_dep = (\<lambda>m. Inr (''sanitized:'' @ m)),
         generateAnswer = (\<lambda>m. Inl ''AI service unavailable''),
         encrypt = (\<lambda>m. Inr (''encrypted:'' @ m)), saveAudit = (\<lambda>a. Inr ())\<rparr>
        ''2026-01-01T00:00:00.000Z'' \<lparr>req_userId = ''user1'', req_message = ''hello''\<rparr>
        \<lparr>failureCount = 2\<rparr>)
     = Inl (Propagated ''AI service unavailable'')
   \<and> calls (executeSecureInquiry
        \<lparr>sanitize_dep = (\<lambda>m. Inr (''sanitized:'' @ m)),
         generateAnswer = (\<lambda>m. Inl ''AI service unavailable''),
         encrypt = (\<lambda>m. Inr (''encrypted:'' @ m)), saveAudit = (\<lambda>a. Inr ())\<rparr>
        ''2026-01-01T00:00:00.000Z'' \<lparr>req_userId = ''user1'', req_message = ''hello''\<rparr>
        \<lparr>failureCount = 2\<rparr>)
     = [IsOpenCalled, SanitizeCalled ''hello'', GenerateAnswerCalled ''sanitized:hello'',
        RecordFailureCalled]
   \<and> failureCount (gate_after (executeSecureInquiry
        \<lparr>sanitize_dep = (\<lambda>m. Inr (''sanitized:'' @ m)),
         generateAnswer = (\<lambda>m. Inl ''AI service unavailable''),
         encrypt = (\<lambda>m. Inr (''encrypted:'' @ m)), saveAudit = (\<lambda>a. Inr ())\<rparr>
        ''2026-01-01T00:00:00.000Z'' \<lparr>req_userId = ''user1'', req_message = ''hello''\<rparr>
        \<lparr>failureCount = 2\<rparr>)) = 3
   \<and> list_ex is_audit_call (calls (executeSecureInquiry
        \<lparr>sanitize_dep = (\<lambda>m. Inr (''sanitized:'' @ m)),
         generateAnswer = (\<lambda>m. Inr ''Generated Answer''),
         encrypt = (\<lambda>m. Inr (''encrypted:'' @ m)),
         saveAudit = (\<lambda>a. (Inr () :: string + unit))\<rparr>
        ''2026-01-01T00:00:00.000Z'' \<lparr>req_userId = ''user1'', req_message = ''hello''\<rparr>
        \<lparr>failureCount = 2\<rparr>))"
  using C9_generation_failure_path [of "\<lparr>failureCount = 2\<rparr>"
      "\<lparr>sanitize_dep = (\<lambda>m. Inr (''sanitized:'' @ m)),
         generateAnswer = (\<lambda>m. Inl ''AI service unavailable''),
         encrypt = (\<lambda>m. Inr (''encrypted:'' @ m)), saveAudit = (\<lambda>a. Inr ())\<rparr>"
      "\<lparr>req_userId = ''user1'', req_message = ''hello''\<rparr>" "''sanitized:hello''"
      "''AI service unavailable''" "''2026-01-01T00:00:00.000Z''"]
    C9_generation_failure_path [of "\<lparr>failureCount = 2\<rparr>"
      "\<lparr>sanitize_dep = (\<lambda>m. Inr (''sanitized:'' @ m)),
         generateAnswer = (\<lambda>m. Inr ''Generated Answer''),
         encrypt = (\<lambda>m. Inr (''encrypted:'' @ m)),
         saveAudit = (\<lambda>a. (Inr () :: string + unit))\<rparr>"
      "\<lparr>req_userId = ''user1'', req_message = ''hello''\<rparr>" "''sanitized:hello''"
      "''x''" "''2026-01-01T00:00:00.000Z''"]
  by (simp add: isOpen_def FAILURE_THRESHOLD_def executeSecureInquiry_def)

text \<open>
  C10. When the gate is closed, the sanitizer has returned and the generation service
  has answered, \<open>recordSuccess()\<close> is the call right after \<open>generateAnswer\<close> and before
  any call to \<open>encrypt\<close> or \<open>saveAudit\<close>. Whatever those two then do, the run leaves the
  counter at 0 and the gate closed and never calls \<open>recordFailure()\<close>; if \<open>encrypt\<close>
  throws \<open>e\<close>, or \<open>encrypt\<close> returns and \<open>saveAudit\<close> rejects with \<open>e\<close>, the flow throws
  that \<open>e\<close>.
\<close>

theorem C10_audit_failure_not_a_gate_failure:
  "\<not> fst (isOpen g) \<and> sanitize_dep deps (req_message req) = Inr sanitized
      \<and> generateAnswer deps sanitized = Inr answer \<longrightarrow>
    take 4 (calls (executeSecureInquiry deps now req g)) =
       [IsOpenCalled, SanitizeCalled (req_message req),
        GenerateAnswerCalled sanitized, RecordSuccessCalled]
    \<and> RecordFailureCalled \<notin> set (calls (executeSecureInquiry deps now req g))
    \<and> gate_after (executeSecureInquiry deps now req g) = recordSuccess g
    \<and> failureCount (gate_after (executeSecureInquiry deps now req g)) = 0
    \<and> \<not> fst (isOpen (gate_after (executeSecureInquiry deps now req g)))
    \<and> (\<forall>e. encrypt deps (req_message req) = Inl e \<longrightarrow>
          result (executeSecureInquiry deps now req g) = Inl (Propagated e)
          \<and> calls (executeSecureInquiry deps now req g) =
             [IsOpenCalled, SanitizeCalled (req_message req),
              GenerateAnswerCalled sanitized, RecordSuccessCalled,
              EncryptCalled (req_message req)])
    \<and> (\<forall>encrypted e.
          encrypt deps (req_message req) = Inr encrypted
          \<and> saveAudit deps \<lparr>userId = req_userId req, timestamp = now,
               originalMessageEncrypted = encrypted, sanitizedMessage = sanitized\<rparr> = Inl e
          \<longrightarrow>
          result (executeSecureInquiry deps now req g) = Inl (Propagated e)
          \<and> calls (executeSecureInquiry deps now req g) =
             [IsOpenCalled, SanitizeCalled (req_message req),
              GenerateAnswerCalled sanitized, RecordSuccessCalled,
              EncryptCalled (req_message req),
              SaveAuditCalled \<lparr>userId = req_userId req, timestamp = now,
               originalMessageEncrypted = encrypted, sanitizedMessage = sanitized\<rparr>])"
proof (intro impI)
  assume h: "\<not> fst (isOpen g) \<and> sanitize_dep deps (req_message req) = Inr sanitized
      \<and> generateAnswer deps sanitized = Inr answer"
  then have c: "\<not> fst (isOpen g)" "sanitize_dep deps (req_message req) = Inr sanitized"
    "generateAnswer deps sanitized = Inr answer"
    by simp_all
  have closed: "failureCount (recordSuccess g) = 0" "\<not> fst (isOpen (recordSuccess g))"
    by (simp_all add: recordSuccess_def isOpen_def FAILURE_THRESHOLD_def)
  show "take 4 (calls (executeSecureInquiry deps now req g)) =
       [IsOpenCalled, SanitizeCalled (req_message req),
        GenerateAnswerCalled sanitized, RecordSuccessCalled]
    \<and> RecordFailureCalled \<notin> set (calls (executeSecureInquiry deps now req g))
    \<and> gate_after (executeSecureInquiry deps now req g) = recordSuccess g
    \<and> failureCount (gate_after (executeSecureInquiry deps now req g)) = 0
    \<and> \<not> fst (isOpen (gate_after (executeSecureInquiry deps now req g)))
    \<and> (\<forall>e. encrypt deps (req_message req) = Inl e \<longrightarrow>
          result (executeSecureInquiry deps now req g) = Inl (Propagated e)
          \<and> calls (executeSecureInquiry deps now req g) =
             [IsOpenCalled, SanitizeCalled (req_message req),
              GenerateAnswerCalled sanitized, RecordSuccessCalled,
              EncryptCalled (req_message req)])
    \<and> (\<forall>encrypted e.
          encrypt deps (req_message req) = Inr encrypted
          \<and> saveAudit deps \<lparr>userId = req_userId req, timestamp = now,
               originalMessageEncrypted = encrypted, sanitizedMessage = sanitized\<rparr> = Inl e
          \<longrightarrow>
          result (executeSecureInquiry deps now req g) = Inl (Propagated e)
          \<and> calls (executeSecureInquiry deps now req g) =
             [IsOpenCalled, SanitizeCalled (req_message req),
              GenerateAnswerCalled sanitized, RecordSuccessCalled,
              EncryptCalled (req_message req),
              SaveAuditCalled \<lparr>userId = req_userId req, timestamp = now,
               originalMessageEncrypted = encrypted, sanitizedMessage = sanitized\<rparr>])"
  proof (cases "encrypt deps (req_message req)")
    case (Inl e)
    show ?thesis
      by (simp add: executeSecureInquiry_encrypt_throws [OF c Inl] closed Inl)
  next
    case (Inr encrypted)
    show ?thesis
      by (simp add: executeSecureInquiry_audited [OF c Inr] closed Inr)
  qed
qed

theorem C10_audit_failure_not_a_gate_failure_witness:
  "\<not> fst (isOpen \<lparr>failureCount = 2\<rparr>)
   \<and> result (executeSecureInquiry
        \<lparr>sanitize_dep = (\<lambda>m. Inr (''sanitized:'' @ m)),
         generateAnswer = (\<lambda>m. Inr ''Generated Answer''),
         encrypt = (\<lambda>m. Inr (''encrypted:'' @ m)),
         saveAudit = (\<lambda>a. Inl ''Database error'')\<rparr>
        ''2026-01-01T00:00:00.000Z'' \<lparr>req_userId = ''user1'', req_message = ''hello''\<rparr>
        \<lparr>failureCount = 2\<rparr>)
     = Inl (Propagated ''Database error'')
   \<and> failureCount (gate_after (executeSecureInquiry
        \<lparr>sanitize_dep = (\<lambda>m. Inr (''sanitized:'' @ m)),
         generateAnswer = (\<lambda>m. Inr ''Generated Answer''),
         encrypt = (\<lambda>m. Inr (''encrypted:'' @ m)),
         saveAudit = (\<lambda>a. Inl ''Database error'')\<rparr>
        ''2026-01-01T00:00:00.000Z'' \<lparr>req_userId = ''user1'', req_message = ''hello''\<rparr>
        \<lparr>failureCount = 2\<rparr>)) = 0
   \<and> calls (executeSecureInquiry
        \<lparr>sanitize_dep = (\<lambda>m. Inr (''sanitized:'' @ m)),
         generateAnswer = (\<lambda>m. Inr ''Generated Answer''),
         encrypt = (\<lambda>m. Inr (''encrypted:'' @ m)),
         saveAudit = (\<lambda>a. Inl ''Database error'')\<rparr>
        ''2026-01-01T00:00:00.000Z'' \<lparr>req_userId = ''user1'', req_message = ''hello''\<rparr>
        \<lparr>failureCount = 2\<rparr>)
     = [IsOpenCalled, SanitizeCalled ''hello'', GenerateAnswerCalled ''sanitized:hello'',
        RecordSuccessCalled, EncryptCalled ''hello'',
        SaveAuditCalled \<lparr>userId = ''user1'', timestamp = ''2026-01-01T00:00:00.000Z'',
          originalMessageEncrypted = ''encrypted:hello'',
          sanitizedMessage = ''sanitized:hello''\<rparr>]
   \<and> result (executeSecureInquiry
        \<lparr>sanitize_dep = (\<lambda>m. Inr (''sanitized:'' @ m)),
         generateAnswer = (\<lambda>m. Inr ''Generated Answer''),
         encrypt = (\<lambda>m. Inl ''Encryption failed''),
         saveAudit = (\<lambda>a. Inr ())\<rparr>
        ''2026-01-01T00:00:00.000Z'' \<lparr>req_userId = ''user1'', req_message = ''hello''\<rparr>
        \<lparr>failureCount = 2\<rparr>)
     = Inl (Propagated ''Encryption failed'')
   \<and> failureCount (gate_after (executeSecureInquiry
        \<lparr>sanitize_dep = (\<lambda>m. Inr (''sanitized:'' @ m)),
         generateAnswer = (\<lambda>m. Inr ''Generated Answer''),
         encrypt = (\<lambda>m. Inl ''Encryption failed''),
         saveAudit = (\<lambda>a. Inr ())\<rparr>
        ''2026-01-01T00:00:00.000Z'' \<lparr>req_userId = ''user1'', req_message = ''hello''\<rparr>
        \<lparr>failureCount = 2\<rparr>)) = 0"
  using C10_audit_failure_not_a_gate_failure [of "\<lparr>failureCount = 2\<rparr>"
      "\<lparr>sanitize_dep = (\<lambda>m. Inr (''sanitized:'' @ m)),
         generateAnswer = (\<lambda>m. Inr ''Generated Answer''),
         encrypt = (\<lambda>m. Inr (''encrypted:'' @ m)),
         saveAudit = (\<lambda>a. Inl ''Database error'')\<rparr>"
      "\<lparr>req_userId = ''user1'', req_message = ''hello''\<rparr>" "''sanitized:hello''"
      "''Generated Answer''" "''2026-01-01T00:00:00.000Z''"]
    C10_audit_failure_not_a_gate_failure [of "\<lparr>failureCount = 2\<rparr>"
      "\<lparr>sanitize_dep = (\<lambda>m. Inr (''sanitized:'' @ m)),
         generateAnswer = (\<lambda>m. Inr ''Generated Answer''),
         encrypt = (\<lambda>m. Inl ''Encryption failed''),
         saveAudit = (\<lambda>a. Inr ())\<rparr>"
      "\<lparr>req_userId = ''user1'', req_message = ''hello''\<rparr>" "''sanitized:hello''"
      "''Generated Answer''" "''2026-01-01T00:00:00.000Z''"]
  by (simp add: isOpen_def FAILURE_THRESHOLD_def executeSecureInquiry_def recordSuccess_def)

section \<open>Properties of the Redactor\<close>

subsection \<open>Degenerate inputs and the checksum\<close>

text \<open>
  C2. For every value that is not a string, and for the empty string, \<open>sanitize\<close> returns
  the empty string. (The function is total and returns a string: there is no input on
  which it raises.)
\<close>

theorem C2_sanitize_non_string_or_empty:
  "(\<forall>s. x \<noteq> JString s) \<or> x = JString [] \<Longrightarrow> sanitize x = []"
  by (cases x) auto

theorem C2_sanitize_non_string_or_empty_witness:
  "sanitize (JNumber 12345) = [] \<and> sanitize JNull = [] \<and> sanitize JUndefined = []
   \<and> sanitize (JObject [(''message'', JString ''test'')]) = []
   \<and> sanitize (JArray [JString ''test@email.com'']) = []
   \<and> sanitize (JString []) = []"
  using C2_sanitize_non_string_or_empty [of "JNumber 12345"]
    C2_sanitize_non_string_or_empty [of JNull]
    C2_sanitize_non_string_or_empty [of JUndefined]
    C2_sanitize_non_string_or_empty [of "JObject [(''message'', JString ''test'')]"]
    C2_sanitize_non_string_or_empty [of "JArray [JString ''test@email.com'']"]
    C2_sanitize_non_string_or_empty [of "JString []"]
  by simp

text \<open>
  The loop with its flag adds up what the positions say: started at the rightmost digit
  with the flag off, it doubles exactly the digits at odd offsets from the right, that is
  at the positions 2, 4, 6, ... counted from 1.
\<close>

lemma luhn_sum_by_position:
  "luhn_sum dbl ds =
     (\<Sum>i<length ds.
        if odd i \<noteq> dbl then luhn_double (digit_val (ds ! i)) else digit_val (ds ! i))"
proof (induction ds arbitrary: dbl)
  case Nil
  then show ?case by simp
next
  case (Cons d ds)
  show ?case
    by (cases dbl)
      (simp_all add: Cons.IH sum.lessThan_Suc_shift del: sum.lessThan_Suc cong: if_cong)
qed

text \<open>
  C3. \<open>isValidLuhn\<close> is the checksum of the specification: going from the rightmost digit
  to the left, the digits at the positions 2, 4, 6, ... (counted from 1) are doubled, 9
  is subtracted from a doubled value above 9, everything is summed, and the digit string
  is valid exactly when the sum is divisible by 10. It accepts \<open>4532015112830366\<close> and
  \<open>0000000000000000\<close> and rejects \<open>1234567890123456\<close>.
\<close>

theorem C3_isValidLuhn_is_the_luhn_checksum:
  "isValidLuhn digits = (luhn_spec_sum digits mod 10 = 0)
   \<and> luhn_double d = (if 9 < 2 * d then 2 * d - 9 else 2 * d)
   \<and> isValidLuhn ''4532015112830366''
   \<and> \<not> isValidLuhn ''1234567890123456''
   \<and> isValidLuhn ''0000000000000000''"
proof -
  have "luhn_sum False (rev digits) = luhn_spec_sum digits"
    by (simp add: luhn_sum_by_position luhn_spec_sum_def)
  then have "isValidLuhn digits = (luhn_spec_sum digits mod 10 = 0)"
    by (simp add: isValidLuhn_def)
  moreover have "isValidLuhn ''4532015112830366''"
    by (simp add: isValidLuhn_def luhn_double_def digit_val_def)
  moreover have "\<not> isValidLuhn ''1234567890123456''"
    by (simp add: isValidLuhn_def luhn_double_def digit_val_def)
  moreover have "isValidLuhn ''0000000000000000''"
    by (simp add: isValidLuhn_def luhn_double_def digit_val_def)
  ultimately show ?thesis
    by (simp add: luhn_double_def)
qed

subsection \<open>Character classes\<close>

lemma is_digit_local [simp]: "is_digit c \<Longrightarrow> is_local c"
  by (simp add: is_local_def)

lemma is_digit_domain [simp]: "is_digit c \<Longrightarrow> is_domain c"
  by (simp add: is_domain_def)

lemma is_letter_domain [simp]: "is_letter c \<Longrightarrow> is_domain c"
  by (simp add: is_domain_def)

lemma at_not_class [simp]:
  "\<not> is_local CHR ''@''" "\<not> is_domain CHR ''@''" "\<not> is_letter CHR ''@''"
  "\<not> is_digit CHR ''@''"
  by (simp_all add: is_local_def is_domain_def is_letter_def is_digit_def)

lemma lt_not_class [simp]:
  "\<not> is_local CHR ''<''" "\<not> is_domain CHR ''<''" "\<not> is_letter CHR ''<''"
  "\<not> is_digit CHR ''<''"
  by (simp_all add: is_local_def is_domain_def is_letter_def is_digit_def)

lemma gt_not_class [simp]:
  "\<not> is_local CHR ''>''" "\<not> is_domain CHR ''>''" "\<not> is_letter CHR ''>''"
  "\<not> is_digit CHR ''>''"
  by (simp_all add: is_local_def is_domain_def is_letter_def is_digit_def)

lemma dot_not_letter [simp]: "\<not> is_letter CHR ''.''" "is_domain CHR ''.''"
  by (simp_all add: is_letter_def is_domain_def)

text \<open>
  What the matcher accepts is an email in the specification's words.
\<close>

lemma tld_at_Some:
  assumes "tld_at s = Some n"
  shows "\<exists>tld rest. s = CHR ''.'' # tld @ rest \<and> 2 \<le> length tld
           \<and> (\<forall>c\<in>set tld. is_letter c) \<and> n = Suc (length tld)"
proof (cases s)
  case Nil
  with assms show ?thesis by simp
next
  case (Cons c cs)
  with assms have "c = CHR ''.''" "2 \<le> length (takeWhile is_letter cs)"
    "n = Suc (length (takeWhile is_letter cs))"
    by (auto split: if_splits)
  moreover have "cs = takeWhile is_letter cs @ dropWhile is_letter cs"
    by simp
  moreover have "\<forall>c\<in>set (takeWhile is_letter cs). is_letter c"
    by (auto dest: set_takeWhileD)
  ultimately show ?thesis
    using Cons by blast
qed

lemma domain_end_Some:
  "domain_end s = Some n \<Longrightarrow>
   \<exists>dm tld rest. s = dm @ CHR ''.'' # tld @ rest \<and> dm \<noteq> []
      \<and> (\<forall>c\<in>set dm. is_domain c) \<and> 2 \<le> length tld
      \<and> (\<forall>c\<in>set tld. is_letter c) \<and> n = length dm + 1 + length tld"
proof (induction s arbitrary: n)
  case Nil
  then show ?case by simp
next
  case (Cons c cs)
  from Cons.prems have c: "is_domain c"
    by (auto split: if_splits)
  show ?case
  proof (cases "domain_end cs")
    case (Some m)
    with Cons.prems c have n: "n = Suc m" by simp
    from Cons.IH [OF Some] obtain dm tld rest where
      h: "cs = dm @ CHR ''.'' # tld @ rest" "dm \<noteq> []" "\<forall>c\<in>set dm. is_domain c"
        "2 \<le> length tld" "\<forall>c\<in>set tld. is_letter c" "m = length dm + 1 + length tld"
      by blast
    show ?thesis
      by (rule exI [of _ "c # dm"], rule exI [of _ tld], rule exI [of _ rest])
         (use h c n in simp)
  next
    case None
    with Cons.prems c obtain m where m: "tld_at cs = Some m" "n = Suc m"
      by (auto split: option.splits)
    from tld_at_Some [OF m(1)] obtain tld rest where
      h: "cs = CHR ''.'' # tld @ rest" "2 \<le> length tld" "\<forall>c\<in>set tld. is_letter c"
        "m = Suc (length tld)"
      by blast
    show ?thesis
      by (rule exI [of _ "[c]"], rule exI [of _ tld], rule exI [of _ rest])
         (use h c m in simp)
  qed
qed

lemma match_email_Some:
  assumes "match_email s = Some n"
  shows "\<exists>w rest. s = w @ rest \<and> email_word w \<and> length w = n"
proof -
  let ?loc = "takeWhile is_local s"
  from assms have loc: "?loc \<noteq> []"
    by (auto simp: match_email_def Let_def split: if_splits)
  from assms loc obtain rest m where
    d: "dropWhile is_local s = CHR ''@'' # rest" "domain_end rest = Some m"
      "n = length ?loc + 1 + m"
    by (auto simp: match_email_def Let_def split: if_splits list.splits option.splits)
  from domain_end_Some [OF d(2)] obtain dm tld rest' where
    h: "rest = dm @ CHR ''.'' # tld @ rest'" "dm \<noteq> []" "\<forall>c\<in>set dm. is_domain c"
      "2 \<le> length tld" "\<forall>c\<in>set tld. is_letter c" "m = length dm + 1 + length tld"
    by blast
  have s: "s = ?loc @ CHR ''@'' # dm @ CHR ''.'' # tld @ rest'"
    using takeWhile_dropWhile_id [of is_local s] d(1) h(1) by simp
  have "\<forall>c\<in>set ?loc. is_local c"
    by (auto dest: set_takeWhileD)
  then have "email_word (?loc @ ''@'' @ dm @ ''.'' @ tld)"
    unfolding email_word_def using loc h by blast
  moreover have "s = (?loc @ ''@'' @ dm @ ''.'' @ tld) @ rest'"
    using s by simp
  moreover have "length (?loc @ ''@'' @ dm @ ''.'' @ tld) = n"
    using d(3) h(6) by simp
  ultimately show ?thesis by blast
qed

text \<open>
  Where a text starts with an email in the specification's words, the matcher finds a match.
\<close>

lemma tld_at_complete:
  assumes "2 \<le> length tld" "\<forall>c\<in>set tld. is_letter c"
  shows "tld_at (CHR ''.'' # tld @ rest) \<noteq> None"
proof -
  have "takeWhile is_letter (tld @ rest) = tld @ takeWhile is_letter rest"
    using assms(2) by (simp add: takeWhile_append2)
  then show ?thesis using assms(1) by simp
qed

lemma domain_end_Cons_not_None:
  "is_domain c \<Longrightarrow> domain_end cs \<noteq> None \<or> tld_at cs \<noteq> None \<Longrightarrow>
   domain_end (c # cs) \<noteq> None"
  by (auto split: option.splits)

lemma domain_end_complete:
  assumes "dm \<noteq> []" "\<forall>c\<in>set dm. is_domain c" "2 \<le> length tld"
    "\<forall>c\<in>set tld. is_letter c"
  shows "domain_end (dm @ CHR ''.'' # tld @ rest) \<noteq> None"
  using assms(1,2)
proof (induction dm)
  case Nil
  then show ?case by simp
next
  case (Cons c dm)
  from Cons.prems have c: "is_domain c" by simp
  show ?case
  proof (cases "dm = []")
    case True
    have "domain_end (c # (CHR ''.'' # tld @ rest)) \<noteq> None"
      using c tld_at_complete [OF assms(3,4), of rest]
      by (intro domain_end_Cons_not_None) simp_all
    with True show ?thesis by simp
  next
    case False
    with Cons have "domain_end (dm @ CHR ''.'' # tld @ rest) \<noteq> None"
      by simp
    then have "domain_end (c # (dm @ CHR ''.'' # tld @ rest)) \<noteq> None"
      using c by (intro domain_end_Cons_not_None) simp_all
    then show ?thesis by simp
  qed
qed

lemma match_email_complete:
  assumes "email_word w"
  shows "match_email (w @ rest) \<noteq> None"
proof -
  from assms obtain loc dm tld where
    h: "w = loc @ ''@'' @ dm @ ''.'' @ tld" "loc \<noteq> []" "\<forall>c\<in>set loc. is_local c"
      "dm \<noteq> []" "\<forall>c\<in>set dm. is_domain c" "2 \<le> length tld" "\<forall>c\<in>set tld. is_letter c"
    unfolding email_word_def by blast
  have w: "w @ rest = loc @ CHR ''@'' # (dm @ CHR ''.'' # tld @ rest)"
    using h(1) by simp
  have t: "takeWhile is_local (w @ rest) = loc"
    unfolding w using h(3) by (simp add: takeWhile_tail)
  have d: "dropWhile is_local (w @ rest) = CHR ''@'' # (dm @ CHR ''.'' # tld @ rest)"
    unfolding w using h(3) by (simp add: dropWhile_append3)
  from domain_end_complete [OF h(4,5,6,7), of rest]
  obtain m where "domain_end (dm @ CHR ''.'' # tld @ rest) = Some m"
    by blast
  then show ?thesis
    using h(2) by (simp add: match_email_def t d)
qed

subsection \<open>Emails in a text\<close>

lemma email_word_chars:
  assumes "email_word w"
  shows "CHR ''@'' \<in> set w" "CHR ''<'' \<notin> set w" "CHR ''>'' \<notin> set w" "w \<noteq> []"
proof -
  from assms obtain loc dm tld where
    h: "w = loc @ ''@'' @ dm @ ''.'' @ tld" "\<forall>c\<in>set loc. is_local c"
      "\<forall>c\<in>set dm. is_domain c" "\<forall>c\<in>set tld. is_letter c"
    unfolding email_word_def by blast
  show "CHR ''@'' \<in> set w" "w \<noteq> []"
    using h(1) by simp_all
  show "CHR ''<'' \<notin> set w"
    using h lt_not_class by auto
  show "CHR ''>'' \<notin> set w"
    using h gt_not_class by auto
qed

lemma sublist_separator:
  assumes "c \<notin> set w" "sublist w (xs @ c # ys)"
  shows "sublist w xs \<or> sublist w ys"
proof -
  from assms(2) consider "sublist w xs" | "sublist w (c # ys)"
    | w1 w2 where "w = w1 @ w2" "suffix w1 xs" "prefix w2 (c # ys)"
    unfolding sublist_append by blast
  then show ?thesis
  proof cases
    case 1
    then show ?thesis by simp
  next
    case 2
    then have "prefix w (c # ys) \<or> sublist w ys"
      by (simp add: sublist_Cons_right)
    then show ?thesis
      using assms(1) by (cases w) auto
  next
    case 3
    show ?thesis
    proof (cases w2)
      case Nil
      with 3 show ?thesis by auto
    next
      case (Cons d ds)
      with 3(3) have "d = c" by simp
      with 3(1) Cons assms(1) show ?thesis by simp
    qed
  qed
qed

lemma contains_email_mono:
  "sublist a b \<Longrightarrow> contains_email a \<Longrightarrow> contains_email b"
  unfolding contains_email_def using sublist_order.order_trans by blast

text \<open>
  No email reaches across a token in angle brackets that holds no \<open>@\<close>: one is found in the
  whole text exactly when one is found on either side.
\<close>

lemma contains_email_bracketed:
  assumes "CHR ''@'' \<notin> set mid"
  shows "contains_email (a @ CHR ''<'' # mid @ CHR ''>'' # b) =
         (contains_email a \<or> contains_email b)"
proof
  assume "contains_email (a @ CHR ''<'' # mid @ CHR ''>'' # b)"
  then obtain w where w: "sublist w (a @ CHR ''<'' # mid @ CHR ''>'' # b)" "email_word w"
    unfolding contains_email_def by blast
  note ch = email_word_chars [OF w(2)]
  from sublist_separator [OF ch(2) w(1)]
  consider "sublist w a" | "sublist w (mid @ CHR ''>'' # b)" by blast
  then show "contains_email a \<or> contains_email b"
  proof cases
    case 1
    with w(2) show ?thesis unfolding contains_email_def by blast
  next
    case 2
    from sublist_separator [OF ch(3) 2] have "sublist w mid \<or> sublist w b" .
    moreover have "\<not> sublist w mid"
      using ch(1) assms set_mono_sublist by blast
    ultimately show ?thesis
      using w(2) unfolding contains_email_def by blast
  qed
next
  assume "contains_email a \<or> contains_email b"
  then show "contains_email (a @ CHR ''<'' # mid @ CHR ''>'' # b)"
  proof
    assume "contains_email a"
    then show ?thesis by (rule contains_email_mono [rotated]) simp
  next
    assume "contains_email b"
    moreover have "sublist b (a @ CHR ''<'' # mid @ CHR ''>'' # b)"
      using sublist_appendI [of b "a @ CHR ''<'' # mid @ [CHR ''>'']" "[]"] by simp
    ultimately show ?thesis by (rule contains_email_mono [rotated])
  qed
qed

lemma placeholder_shape:
  assumes "is_placeholder p"
  shows "\<exists>mid. p = CHR ''<'' # mid @ [CHR ''>''] \<and> CHR ''@'' \<notin> set mid
           \<and> (\<forall>c\<in>set mid. \<not> is_digit c)"
proof -
  have "EMAIL_PLACEHOLDER = CHR ''<'' # ''REDACTED: EMAIL'' @ [CHR ''>'']"
    "CREDIT_CARD_PLACEHOLDER = CHR ''<'' # ''REDACTED: CREDIT_CARD'' @ [CHR ''>'']"
    "SSN_PLACEHOLDER = CHR ''<'' # ''REDACTED: SSN'' @ [CHR ''>'']"
    by (simp_all add: EMAIL_PLACEHOLDER_def CREDIT_CARD_PLACEHOLDER_def SSN_PLACEHOLDER_def)
  moreover have "CHR ''@'' \<notin> set ''REDACTED: EMAIL'' \<and> (\<forall>c\<in>set ''REDACTED: EMAIL''. \<not> is_digit c)"
    "CHR ''@'' \<notin> set ''REDACTED: CREDIT_CARD'' \<and> (\<forall>c\<in>set ''REDACTED: CREDIT_CARD''. \<not> is_digit c)"
    "CHR ''@'' \<notin> set ''REDACTED: SSN'' \<and> (\<forall>c\<in>set ''REDACTED: SSN''. \<not> is_digit c)"
    by (simp_all add: is_digit_def)
  ultimately show ?thesis
    using assms unfolding is_placeholder_def by metis
qed

lemma contains_email_placeholder:
  assumes "is_placeholder p"
  shows "contains_email (a @ p @ b) = (contains_email a \<or> contains_email b)"
proof -
  from placeholder_shape [OF assms] obtain mid where
    "p = CHR ''<'' # mid @ [CHR ''>'']" "CHR ''@'' \<notin> set mid"
    by blast
  then show ?thesis
    using contains_email_bracketed [of mid a b] by simp
qed

text \<open>
  The email pass returns a text without emails unchanged, and its output has none left.
\<close>

lemma match_email_None_if_free:
  assumes "\<not> contains_email s" "suffix t s"
  shows "match_email t = None"
proof (rule ccontr)
  assume "match_email t \<noteq> None"
  then obtain n where "match_email t = Some n" by blast
  from match_email_Some [OF this] obtain w rest where "t = w @ rest" "email_word w"
    by blast
  moreover from this assms(2) have "sublist w s"
    by (metis sublist_appendI suffix_def)
  ultimately show False
    using assms(1) unfolding contains_email_def by blast
qed

lemma email_pass_unchanged:
  "\<not> contains_email s \<Longrightarrow> email_pass s = s"
proof (induction s)
  case Nil
  then show ?case by simp
next
  case (Cons c cs)
  have "match_email (c # cs) = None"
    using Cons.prems by (rule match_email_None_if_free) simp
  moreover have "\<not> contains_email cs"
    using Cons.prems contains_email_mono [of cs "c # cs"] by (auto simp: sublist_Cons_right)
  ultimately show ?case
    using Cons.IH by simp
qed

lemma email_pass_output_free_gen:
  assumes "\<forall>i<length a. match_email (drop i (a @ s)) = None"
  shows "\<not> contains_email (a @ email_pass s)"
  using assms
proof (induction s arbitrary: a rule: email_pass.induct)
  case 1
  show ?case
  proof
    assume "contains_email (a @ email_pass [])"
    then obtain w where w: "sublist w a" "email_word w"
      unfolding contains_email_def by auto
    then obtain ps ss where a: "a = ps @ w @ ss"
      unfolding sublist_def by blast
    have "length ps < length a"
      using a email_word_chars(4) [OF w(2)] by simp
    with 1 have "match_email (drop (length ps) (a @ [])) = None"
      by blast
    then show False
      using match_email_complete [OF w(2), of ss] a by simp
  qed
next
  case (2 c cs)
  have free_a: "\<not> contains_email a"
  proof
    assume "contains_email a"
    then obtain w where w: "sublist w a" "email_word w"
      unfolding contains_email_def by auto
    then obtain ps ss where a: "a = ps @ w @ ss"
      unfolding sublist_def by blast
    have "length ps < length a"
      using a email_word_chars(4) [OF w(2)] by simp
    with "2.prems" have "match_email (drop (length ps) (a @ c # cs)) = None"
      by blast
    then show False
      using match_email_complete [OF w(2), of "ss @ c # cs"] a by simp
  qed
  show ?case
  proof (cases "match_email (c # cs)")
    case None
    have "\<forall>i<length (a @ [c]). match_email (drop i ((a @ [c]) @ cs)) = None"
    proof (intro allI impI)
      fix i assume "i < length (a @ [c])"
      then consider "i < length a" | "i = length a" by fastforce
      then show "match_email (drop i ((a @ [c]) @ cs)) = None"
      proof cases
        case 1
        with "2.prems" show ?thesis by simp
      next
        case 2
        with None show ?thesis by simp
      qed
    qed
    from "2.IH"(1) [OF None this] show ?thesis
      using None by simp
  next
    case (Some n)
    have "\<not> contains_email ([] @ email_pass (drop n (c # cs)))"
      by (rule "2.IH"(2) [OF Some]) simp
    then have "\<not> contains_email (a @ EMAIL_PLACEHOLDER @ email_pass (drop n (c # cs)))"
      using free_a by (simp add: contains_email_placeholder is_placeholder_def)
    then show ?thesis
      using Some by simp
  qed
qed

lemma email_pass_output_free: "\<not> contains_email (email_pass s)"
  using email_pass_output_free_gen [of "[]" s] by simp

subsection \<open>The digit scan\<close>

lemma redactor_card: "redactor redact_card"
  by (simp add: redactor_def redact_card_def is_placeholder_def)

lemma redactor_ssn: "redactor redact_ssn"
  by (simp add: redactor_def redact_ssn_def is_placeholder_def)

lemma placeholder_no_digit:
  "is_placeholder p \<Longrightarrow> c \<in> set p \<Longrightarrow> \<not> is_digit c"
  using placeholder_shape [of p] by auto

lemma placeholder_ends:
  "is_placeholder p \<Longrightarrow> p \<noteq> [] \<and> \<not> is_digit (hd p) \<and> \<not> is_digit (last p)"
  using placeholder_shape [of p] by auto

lemma no_leading_run:
  "b = [] \<or> \<not> P (hd b) \<Longrightarrow> takeWhile P b = [] \<and> dropWhile P b = b"
  by (cases b) auto

lemma digit_pass_no_digits:
  "\<forall>c\<in>set s. \<not> is_digit c \<Longrightarrow> digit_pass f s = s"
  by (induction s) simp_all

lemma digit_pass_run:
  assumes "run \<noteq> []" "\<forall>c\<in>set run. is_digit c" "b = [] \<or> \<not> is_digit (hd b)"
  shows "digit_pass f (run @ b) = f run @ digit_pass f b"
proof -
  from assms(1) obtain c cs where run: "run = c # cs" by (cases run) auto
  with assms(2) have c: "is_digit c" and cs: "\<forall>c\<in>set cs. is_digit c" by simp_all
  have "takeWhile is_digit (cs @ b) = cs" "dropWhile is_digit (cs @ b) = b"
    using cs no_leading_run [of b is_digit] assms(3)
    by (simp_all add: takeWhile_append2 dropWhile_append2)
  then show ?thesis
    using c run by simp
qed

lemma digit_pass_only_run:
  assumes "run \<noteq> []" "\<forall>c\<in>set run. is_digit c"
  shows "digit_pass f run = f run"
  using digit_pass_run [OF assms, of "[]" f] by simp

lemma dropWhile_nonempty_append:
  assumes "dropWhile P cs \<noteq> []"
  shows "takeWhile P (cs @ b) = takeWhile P cs" "dropWhile P (cs @ b) = dropWhile P cs @ b"
    "last (dropWhile P cs) = last cs"
proof -
  from assms have "hd (dropWhile P cs) \<in> set cs" "\<not> P (hd (dropWhile P cs))"
    using hd_dropWhile [of P cs] set_dropWhileD [of "hd (dropWhile P cs)" P cs] by auto
  then show "takeWhile P (cs @ b) = takeWhile P cs"
    "dropWhile P (cs @ b) = dropWhile P cs @ b"
    by (simp_all add: takeWhile_append1 dropWhile_append1)
  show "last (dropWhile P cs) = last cs"
    using assms last_appendR [of "dropWhile P cs" "takeWhile P cs"] by simp
qed

lemma digit_pass_append:
  "(a = [] \<or> \<not> is_digit (last a)) \<or> (b = [] \<or> \<not> is_digit (hd b)) \<Longrightarrow>
   digit_pass f (a @ b) = digit_pass f a @ digit_pass f b"
proof (induction f a rule: digit_pass.induct)
  case (1 f)
  then show ?case by simp
next
  case (2 f c cs)
  show ?case
  proof (cases "is_digit c")
    case False
    have "(cs = [] \<or> \<not> is_digit (last cs)) \<or> (b = [] \<or> \<not> is_digit (hd b))"
      using "2.prems" by (cases "cs = []") auto
    from "2.IH"(2) [OF False this] False show ?thesis by simp
  next
    case True
    show ?thesis
    proof (cases "dropWhile is_digit cs = []")
      case all: True
      then have digits: "\<forall>d\<in>set (c # cs). is_digit d"
        using True by (auto simp: dropWhile_eq_Nil_conv)
      then have "is_digit (last (c # cs))"
        using last_in_set [of "c # cs"] by blast
      with "2.prems" have b: "b = [] \<or> \<not> is_digit (hd b)" by auto
      have "digit_pass f ((c # cs) @ b) = f (c # cs) @ digit_pass f b"
        by (rule digit_pass_run [OF _ digits b]) simp
      moreover have "digit_pass f (c # cs) = f (c # cs)"
        by (rule digit_pass_only_run [OF _ digits]) simp
      ultimately show ?thesis by simp
    next
      case some: False
      note d = dropWhile_nonempty_append [OF some]
      have "last (c # cs) = last (dropWhile is_digit cs)"
        using some d(3) by (cases "cs = []") auto
      with "2.prems" have
        "(dropWhile is_digit cs = [] \<or> \<not> is_digit (last (dropWhile is_digit cs)))
         \<or> (b = [] \<or> \<not> is_digit (hd b))"
        by auto
      from "2.IH"(1) [OF True this] show ?thesis
        using True by (simp add: d(1,2))
    qed
  qed
qed


lemma digit_pass_hd:
  "s = [] \<or> \<not> is_digit (hd s) \<Longrightarrow>
   digit_pass f s = [] \<or> \<not> is_digit (hd (digit_pass f s))"
  by (cases s) auto



lemma digit_pass_placeholder:
  assumes "is_placeholder p"
  shows "digit_pass f (a @ p @ b) = digit_pass f a @ p @ digit_pass f b"
proof -
  note e = placeholder_ends [OF assms]
  have "digit_pass f (a @ (p @ b)) = digit_pass f a @ digit_pass f (p @ b)"
    by (rule digit_pass_append) (use e in simp)
  moreover have "digit_pass f (p @ b) = digit_pass f p @ digit_pass f b"
    by (rule digit_pass_append) (use e in simp)
  moreover have "digit_pass f p = p"
    by (rule digit_pass_no_digits) (use placeholder_no_digit [OF assms] in blast)
  ultimately show ?thesis by simp
qed

lemma digit_pass_compose:
  assumes "redactor f"
  shows "digit_pass g (digit_pass f s) =
         digit_pass (\<lambda>run. if f run = run then g run else f run) s"
  using assms
proof (induction f s rule: digit_pass.induct)
  case (1 f)
  then show ?case by simp
next
  case (2 f c cs)
  let ?h = "\<lambda>run. if f run = run then g run else f run"
  show ?case
  proof (cases "is_digit c")
    case False
    with "2.IH"(2) [OF False "2.prems"] show ?thesis by simp
  next
    case True
    let ?run = "c # takeWhile is_digit cs"
    let ?rest = "dropWhile is_digit cs"
    have run: "?run \<noteq> []" "\<forall>d\<in>set ?run. is_digit d"
      using True by (auto dest: set_takeWhileD)
    have "?rest = [] \<or> \<not> is_digit (hd ?rest)"
      using hd_dropWhile [of is_digit cs] by blast
    then have x: "digit_pass f ?rest = [] \<or> \<not> is_digit (hd (digit_pass f ?rest))"
      by (rule digit_pass_hd)
    have ih: "digit_pass g (digit_pass f ?rest) = digit_pass ?h ?rest"
      by (rule "2.IH"(1) [OF True "2.prems"])
    have "digit_pass g (f ?run @ digit_pass f ?rest) = ?h ?run @ digit_pass ?h ?rest"
    proof (cases "f ?run = ?run")
      case same: True
      have "digit_pass g (?run @ digit_pass f ?rest) =
            g ?run @ digit_pass g (digit_pass f ?rest)"
        by (rule digit_pass_run [OF run x])
      with same ih show ?thesis by simp
    next
      case other: False
      with "2.prems" have "is_placeholder (f ?run)"
        unfolding redactor_def by blast
      from digit_pass_placeholder [OF this, of g "[]" "digit_pass f ?rest"] other ih
      show ?thesis by simp
    qed
    then show ?thesis
      using True by simp
  qed
qed

lemma contains_email_digit_pass:
  "redactor f \<Longrightarrow> contains_email (a @ digit_pass f s) \<Longrightarrow> contains_email (a @ s)"
proof (induction f s arbitrary: a rule: digit_pass.induct)
  case (1 f)
  then show ?case by simp
next
  case (2 f c cs)
  show ?case
  proof (cases "is_digit c")
    case False
    with "2.prems"(2) have "contains_email ((a @ [c]) @ digit_pass f cs)" by simp
    from "2.IH"(2) [OF False "2.prems"(1) this] show ?thesis by simp
  next
    case True
    let ?run = "c # takeWhile is_digit cs"
    let ?rest = "dropWhile is_digit cs"
    have split: "c # cs = ?run @ ?rest" by simp
    from "2.prems"(2) True
    have out: "contains_email (a @ f ?run @ digit_pass f ?rest)" by simp
    show ?thesis
    proof (cases "f ?run = ?run")
      case same: True
      with out have "contains_email ((a @ ?run) @ digit_pass f ?rest)" by simp
      from "2.IH"(1) [OF True "2.prems"(1) this] show ?thesis
        by (simp del: takeWhile_dropWhile_id add: split [simplified, symmetric])
    next
      case other: False
      with "2.prems"(1) have "is_placeholder (f ?run)"
        unfolding redactor_def by blast
      from out contains_email_placeholder [OF this]
      have "contains_email a \<or> contains_email ([] @ digit_pass f ?rest)" by simp
      then show ?thesis
      proof
        assume "contains_email a"
        then show ?thesis by (rule contains_email_mono [rotated]) simp
      next
        assume "contains_email ([] @ digit_pass f ?rest)"
        from "2.IH"(1) [OF True "2.prems"(1) this] have "contains_email ?rest" by simp
        moreover have "sublist ?rest (a @ c # cs)"
          using sublist_appendI [of ?rest "a @ ?run" "[]"] by (simp del: sublist_appendI)
        ultimately show ?thesis by (rule contains_email_mono [rotated])
      qed
    qed
  qed
qed

subsection \<open>Composing the passes\<close>

lemma sanitize_string: "sanitize (JString s) = ssn_pass (card_pass (email_pass s))"
  by (simp add: ssn_pass_def card_pass_def)

text \<open>
  Running a digit pass again, also after another one, changes nothing more.
\<close>

lemma redactor_then:
  assumes "redactor f" "redactor g"
  shows "redactor (\<lambda>run. if f run = run then g run else f run)"
  using assms unfolding redactor_def by metis

lemma digit_pass_absorb:
  assumes "redactor f" "redactor g"
  shows "digit_pass f (digit_pass g (digit_pass f s)) = digit_pass g (digit_pass f s)"
proof -
  let ?h = "\<lambda>run. if f run = run then g run else f run"
  have h: "redactor ?h" by (rule redactor_then [OF assms])
  have "(\<lambda>run. if ?h run = run then f run else ?h run) = ?h"
    by (rule ext) simp
  then show ?thesis
    by (simp add: digit_pass_compose [OF assms(1)] digit_pass_compose [OF h])
qed

lemma digit_pass_idem:
  assumes "redactor f"
  shows "digit_pass f (digit_pass f s) = digit_pass f s"
proof -
  have "(\<lambda>run. if f run = run then f run else f run) = f"
    by (rule ext) simp
  then show ?thesis
    by (simp add: digit_pass_compose [OF assms])
qed

lemma passes_output_free:
  "\<not> contains_email (ssn_pass (card_pass (email_pass m)))"
proof
  assume "contains_email (ssn_pass (card_pass (email_pass m)))"
  then have "contains_email ([] @ digit_pass redact_ssn (card_pass (email_pass m)))"
    by (simp add: ssn_pass_def)
  from contains_email_digit_pass [OF redactor_ssn this]
  have "contains_email ([] @ digit_pass redact_card (email_pass m))"
    by (simp add: card_pass_def)
  from contains_email_digit_pass [OF redactor_card this]
  show False
    using email_pass_output_free [of m] by simp
qed

lemma passes_idem:
  "ssn_pass (card_pass (email_pass (ssn_pass (card_pass (email_pass m))))) =
   ssn_pass (card_pass (email_pass m))"
proof -
  let ?v = "ssn_pass (card_pass (email_pass m))"
  have "email_pass ?v = ?v"
    by (rule email_pass_unchanged [OF passes_output_free])
  moreover have "card_pass ?v = ?v"
    unfolding card_pass_def ssn_pass_def
    by (rule digit_pass_absorb [OF redactor_card redactor_ssn])
  moreover have "ssn_pass ?v = ?v"
    unfolding ssn_pass_def by (rule digit_pass_idem [OF redactor_ssn])
  ultimately show ?thesis by simp
qed

text \<open>
  The email matcher stops at \<open><\<close> as it stops at the end of the text.
\<close>

lemma tld_at_before_lt: "tld_at (t @ CHR ''<'' # r) = tld_at t"
  by (cases t) (simp_all add: takeWhile_tail)

lemma domain_end_before_lt: "domain_end (t @ CHR ''<'' # r) = domain_end t"
  by (induction t) (simp_all add: tld_at_before_lt split: option.splits)

lemma match_email_before_lt: "match_email (t @ CHR ''<'' # r) = match_email t"
proof (cases "dropWhile is_local t")
  case Nil
  then have all: "\<forall>c\<in>set t. is_local c"
    by (simp add: dropWhile_eq_Nil_conv)
  have "match_email t = None"
    unfolding match_email_def Let_def Nil by simp
  moreover have "match_email (t @ CHR ''<'' # r) = None"
    using all by (simp add: match_email_def takeWhile_tail dropWhile_append2)
  ultimately show ?thesis by simp
next
  case (Cons c rest)
  then have "dropWhile is_local t \<noteq> []" by simp
  from dropWhile_nonempty_append(1,2) [OF this, of "CHR ''<'' # r"] Cons
  have tw: "takeWhile is_local (t @ CHR ''<'' # r) = takeWhile is_local t"
    and dw: "dropWhile is_local (t @ CHR ''<'' # r) = c # (rest @ CHR ''<'' # r)"
    by simp_all
  show ?thesis
    unfolding match_email_def Let_def tw dw Cons
    by (simp add: domain_end_before_lt cong: if_cong)
qed

lemma match_email_le_length:
  "match_email s = Some n \<Longrightarrow> n \<le> length s"
  using match_email_Some [of s n] by auto

lemma email_pass_before_lt:
  "email_pass (a @ CHR ''<'' # r) = email_pass a @ email_pass (CHR ''<'' # r)"
proof (induction a rule: email_pass.induct)
  case 1
  then show ?case by simp
next
  case (2 c cs)
  show ?case
  proof (cases "match_email (c # cs)")
    case None
    then have "match_email (c # cs @ CHR ''<'' # r) = None"
      using match_email_before_lt [of "c # cs" r] by simp
    with None "2.IH"(1) [OF None] show ?thesis by simp
  next
    case (Some n)
    then have m: "match_email (c # cs @ CHR ''<'' # r) = Some n"
      using match_email_before_lt [of "c # cs" r] by simp
    have "n \<le> length (c # cs)"
      by (rule match_email_le_length [OF Some])
    then have "drop n (c # cs @ CHR ''<'' # r) = drop n (c # cs) @ CHR ''<'' # r"
      using drop_append [of n "c # cs" "CHR ''<'' # r"] by simp
    with "2.IH"(2) [OF Some] Some m show ?thesis
      by (simp del: drop_append)
  qed
qed

lemma match_email_no_at:
  assumes "CHR ''@'' \<notin> set t" "t \<noteq> []" "\<not> is_local (last t)"
  shows "match_email (t @ b) = None"
proof -
  have ne: "dropWhile is_local t \<noteq> []"
    using assms(2,3) last_in_set [of t] by (auto simp: dropWhile_eq_Nil_conv)
  then obtain c rest where d: "dropWhile is_local t = c # rest"
    by (cases "dropWhile is_local t") auto
  then have "c \<in> set t"
    using set_dropWhileD [of c is_local t] by simp
  with assms(1) have c: "c \<noteq> CHR ''@''" by auto
  note a = dropWhile_nonempty_append(1,2) [OF ne, of b]
  show ?thesis
    unfolding match_email_def Let_def a d using c by simp
qed

lemma email_pass_no_at_prefix:
  "CHR ''@'' \<notin> set p \<Longrightarrow> p = [] \<or> \<not> is_local (last p) \<Longrightarrow>
   email_pass (p @ b) = p @ email_pass b"
proof (induction p)
  case Nil
  then show ?case by simp
next
  case (Cons c cs)
  have "match_email ((c # cs) @ b) = None"
    by (rule match_email_no_at) (use Cons.prems in auto)
  moreover have "cs = [] \<or> \<not> is_local (last cs)"
    using Cons.prems(2) by (cases "cs = []") auto
  ultimately show ?case
    using Cons.IH Cons.prems(1) by simp
qed

lemma email_pass_placeholder:
  assumes "is_placeholder p"
  shows "email_pass (a @ p @ b) = email_pass a @ p @ email_pass b"
proof -
  from placeholder_shape [OF assms] obtain mid where
    p: "p = CHR ''<'' # mid @ [CHR ''>'']" "CHR ''@'' \<notin> set mid"
    by blast
  have "email_pass (a @ CHR ''<'' # (mid @ CHR ''>'' # b)) =
        email_pass a @ email_pass (CHR ''<'' # (mid @ CHR ''>'' # b))"
    by (rule email_pass_before_lt)
  moreover have "email_pass (p @ b) = p @ email_pass b"
    by (rule email_pass_no_at_prefix) (use p in simp_all)
  ultimately show ?thesis
    using p(1) by simp
qed

lemma sanitize_placeholder:
  assumes "is_placeholder p"
  shows "sanitize (JString (a @ p @ b)) = sanitize (JString a) @ p @ sanitize (JString b)"
  unfolding sanitize_string
  by (simp add: email_pass_placeholder [OF assms] card_pass_def ssn_pass_def
      digit_pass_placeholder [OF assms])











subsection \<open>The claims about digit runs and idempotence\<close>



text \<open>
  C5. \<open>sanitize\<close> is idempotent: sanitizing its own output gives that output again, for
  every input. A placeholder is never matched by a later pass: the card pass and the SSN
  pass copy \<open><REDACTED: EMAIL>\<close>, and the SSN pass copies \<open><REDACTED: CREDIT_CARD>\<close>,
  treating the text on both sides as if the token were not there. The same holds for
  \<open>sanitize\<close> as a whole and each of the three placeholders, wherever they stand in a
  message.
\<close>

theorem C5_sanitize_idempotent:
  "sanitize (JString (sanitize x)) = sanitize x
   \<and> card_pass (a @ EMAIL_PLACEHOLDER @ b) = card_pass a @ EMAIL_PLACEHOLDER @ card_pass b
   \<and> ssn_pass (a @ EMAIL_PLACEHOLDER @ b) = ssn_pass a @ EMAIL_PLACEHOLDER @ ssn_pass b
   \<and> ssn_pass (a @ CREDIT_CARD_PLACEHOLDER @ b) =
       ssn_pass a @ CREDIT_CARD_PLACEHOLDER @ ssn_pass b
   \<and> sanitize (JString (a @ EMAIL_PLACEHOLDER @ b)) =
       sanitize (JString a) @ EMAIL_PLACEHOLDER @ sanitize (JString b)
   \<and> sanitize (JString (a @ CREDIT_CARD_PLACEHOLDER @ b)) =
       sanitize (JString a) @ CREDIT_CARD_PLACEHOLDER @ sanitize (JString b)
   \<and> sanitize (JString (a @ SSN_PLACEHOLDER @ b)) =
       sanitize (JString a) @ SSN_PLACEHOLDER @ sanitize (JString b)"
proof -
  have idem: "sanitize (JString (sanitize x)) = sanitize x"
  proof (cases "\<exists>m. x = JString m")
    case True
    then obtain m where "x = JString m" by blast
    then show ?thesis
      using passes_idem [of m] by (simp only: sanitize_string)
  next
    case False
    then have "sanitize x = []" by (cases x) auto
    then show ?thesis by simp
  qed
  have ph: "is_placeholder EMAIL_PLACEHOLDER" "is_placeholder CREDIT_CARD_PLACEHOLDER"
    "is_placeholder SSN_PLACEHOLDER"
    by (simp_all add: is_placeholder_def)
  show ?thesis
    unfolding card_pass_def ssn_pass_def
    using idem digit_pass_placeholder [OF ph(1)] digit_pass_placeholder [OF ph(2)]
      sanitize_placeholder [OF ph(1)] sanitize_placeholder [OF ph(2)]
      sanitize_placeholder [OF ph(3)]
    by blast
qed

end
